theory Spec2Isabelle
  imports Main "HOL-Library.Word"
begin

section \<open>The LRU-K replacer of \<^verbatim>\<open>src/buffer/lru_k_replacer.cpp\<close>\<close>

text \<open>
  The replacer keeps one node per tracked frame id in \<^verbatim>\<open>node_store_\<close>, a logical clock
  \<^verbatim>\<open>current_timestamp_\<close>, the window \<^verbatim>\<open>k_\<close>, the capacity \<^verbatim>\<open>max_num_frames_\<close> and the cached
  number of evictable frames \<^verbatim>\<open>replacer_size_\<close>.

  Types. \<^verbatim>\<open>size_t\<close> values that the source file shows (\<^verbatim>\<open>num_frames\<close>, \<^verbatim>\<open>k\<close>, the result of
  \<^verbatim>\<open>Size()\<close>) are 64-bit words, so \<^verbatim>\<open>replacer_size_--\<close> and \<^verbatim>\<open>replacer_size_++\<close> wrap as in C++.
  Frame ids (\<^verbatim>\<open>frame_id_t\<close>, a signed integer type with the sentinel \<^verbatim>\<open>-1\<close>) are \<^typ>\<open>int\<close>.
  The header \<^verbatim>\<open>lru_k_replacer.h\<close> is not among the sources: the class \<^verbatim>\<open>LRUKNode\<close>, the helper
  \<^verbatim>\<open>CheckFrameId\<close> and the declarations of the members are modelled from the specification
  and marked so below.
\<close>

subsection \<open>Outcomes\<close>

text \<open>
  \<^verbatim>\<open>InvalidFrameId\<close> is the exception of \<^verbatim>\<open>CheckFrameId\<close>, \<^verbatim>\<open>FrameNonEvictable\<close> the exception
  thrown by \<^verbatim>\<open>Remove\<close> (\<^verbatim>\<open>"frame {} is non-evictable."\<close>). \<^verbatim>\<open>UndefinedBehaviour\<close> stands for a
  call that has no defined result in C++: reading the front of an empty history, or asking
  for a k-th most recent access that does not exist.
\<close>

datatype failure = InvalidFrameId | FrameNonEvictable | UndefinedBehaviour

subsection \<open>Frame records (\<^verbatim>\<open>LRUKNode\<close>)\<close>

text \<open>
  Modelled from the spec: the class \<^verbatim>\<open>LRUKNode\<close> (declared in the absent header). A Frame
  Record has an id, a history of logical-clock values, oldest first, bounded to the \<open>k\<close> most
  recent entries, and an evictable flag. The constructor call \<^verbatim>\<open>LRUKNode(k_, frame_id)\<close> of
  \<^verbatim>\<open>RecordAccess\<close> gives the two remaining fields. Clock values are \<^typ>\<open>nat\<close>: the spec's Logical
  Clock is a counter that advances by one per recorded access and never repeats. The
  \<^verbatim>\<open>size_t\<close> variables that \<^verbatim>\<open>Evict\<close> reads the entries into hold the same numbers as long as the
  clock is below \<open>2^64\<close>, that is, on every run with fewer than \<open>2^64\<close> recorded accesses.
\<close>

record LRUKNode =
  history :: "nat list"
  node_k :: "64 word"
  node_fid :: int
  is_evictable :: bool

text \<open>Modelled from the spec: a new record has no history and starts non-evictable.\<close>

definition LRUKNode_new :: "64 word \<Rightarrow> int \<Rightarrow> LRUKNode" where
  "LRUKNode_new kk f = \<lparr>history = [], node_k = kk, node_fid = f, is_evictable = False\<rparr>"

text \<open>Modelled from the spec: the node that \<^verbatim>\<open>operator[]\<close> creates for a key that is absent
  (default constructor of the absent header): no history, non-evictable.\<close>

definition LRUKNode_default :: LRUKNode where
  "LRUKNode_default = LRUKNode_new 0 0"

text \<open>Modelled from the spec: \<open>evictable\<close>, "only evictable frames participate in eviction
  selection".\<close>

definition IsEvictable :: "LRUKNode \<Rightarrow> bool" where
  "IsEvictable n = is_evictable n"

text \<open>Modelled from the spec: a frame with \<open>history.length == 0\<close> is empty.\<close>

definition IsEmpty :: "LRUKNode \<Rightarrow> bool" where
  "IsEmpty n = (history n = [])"

text \<open>Modelled from the spec: \<open>history.length\<close>, the number of recorded accesses kept.\<close>

definition Size_node :: "LRUKNode \<Rightarrow> nat" where
  "Size_node n = length (history n)"

text \<open>Modelled from the spec: the oldest history entry, the frame's single earliest known
  access. There is none when the history is empty.\<close>

definition EarliestTime :: "LRUKNode \<Rightarrow> nat option" where
  "EarliestTime n = (case history n of [] \<Rightarrow> None | t # _ \<Rightarrow> Some t)"

text \<open>Modelled from the spec: the clock value of the \<open>j\<close>-th most recent access. There is none
  unless \<open>1 \<le> j \<le> history.length\<close>.\<close>

definition LastKTime :: "LRUKNode \<Rightarrow> int \<Rightarrow> nat option" where
  "LastKTime n j =
     (if 0 < j \<and> nat j \<le> length (history n)
      then Some (history n ! (length (history n) - nat j)) else None)"

text \<open>Modelled from the spec: "appends the new clock value to its history, evicting the
  oldest entry first if \<open>history.length\<close> already equals \<open>k\<close>". Dropping the oldest entry of an
  empty history (\<open>k = 0\<close>) is undefined.\<close>

definition AddHistory :: "LRUKNode \<Rightarrow> nat \<Rightarrow> LRUKNode option" where
  "AddHistory n ts =
     (if length (history n) = unat (node_k n)
      then (case history n of
              [] \<Rightarrow> None
            | _ # rest \<Rightarrow> Some (n\<lparr>history := rest @ [ts]\<rparr>))
      else Some (n\<lparr>history := history n @ [ts]\<rparr>))"

text \<open>Modelled from the spec: clearing a record empties the history and resets the
  evictable flag, in place.\<close>

definition ClearNode :: "LRUKNode \<Rightarrow> LRUKNode" where
  "ClearNode n = n\<lparr>history := [], is_evictable := False\<rparr>"

text \<open>Modelled from the spec: the setter of the evictable flag.\<close>

definition SetEvictable_node :: "LRUKNode \<Rightarrow> bool \<Rightarrow> LRUKNode" where
  "SetEvictable_node n b = n\<lparr>is_evictable := b\<rparr>"

subsection \<open>The replacer state\<close>

record replacer =
  max_num_frames :: "64 word"
  lru_k :: "64 word"
  current_timestamp :: nat
  node_store :: "int \<rightharpoonup> LRUKNode"
  replacer_size :: "64 word"

text \<open>
  The constructor \<^verbatim>\<open>LRUKReplacer(num_frames, k)\<close> sets \<^verbatim>\<open>max_num_frames_\<close> and \<^verbatim>\<open>k_\<close>.
  Modelled from the spec: the initial values of the other members (default member
  initialisers of the absent header): no Frame Record, clock and evictable count zero.
\<close>

definition LRUKReplacer :: "64 word \<Rightarrow> 64 word \<Rightarrow> replacer" where
  "LRUKReplacer num_frames kk =
     \<lparr>max_num_frames = num_frames, lru_k = kk, current_timestamp = 0,
      node_store = Map.empty, replacer_size = 0\<rparr>"

text \<open>Modelled from the spec: \<^verbatim>\<open>CheckFrameId\<close> accepts exactly the ids with
  \<open>0 \<le> id < capacity\<close>; any other id is the invalid-identifier failure.\<close>

definition CheckFrameId :: "replacer \<Rightarrow> int \<Rightarrow> bool" where
  "CheckFrameId s frame_id = (0 \<le> frame_id \<and> frame_id < uint (max_num_frames s))"

text \<open>\<^verbatim>\<open>node_store_[id]\<close>: the node stored under a key, default-constructed when the key is
  absent.\<close>

definition subscript :: "(int \<rightharpoonup> LRUKNode) \<Rightarrow> int \<Rightarrow> LRUKNode" where
  "subscript m frame_id = (case m frame_id of None \<Rightarrow> LRUKNode_default | Some n \<Rightarrow> n)"

subsection \<open>\<^verbatim>\<open>Evict\<close>\<close>

text \<open>
  The local variables of the scan. The \<^verbatim>\<open>size_t\<close> locals hold history entries (or the
  sentinel 0), so they are \<^typ>\<open>nat\<close> like the entries.
\<close>

record scan =
  has_inf :: bool
  earliest_backward_k :: nat
  earliest_fewer_k :: nat
  evict_id :: int

definition scan_init :: scan where
  "scan_init = \<lparr>has_inf = False, earliest_backward_k = 0, earliest_fewer_k = 0, evict_id = - 1\<rparr>"

text \<open>\<^verbatim>\<open>static_cast<int>(k_)\<close>: the low 32 bits of \<^verbatim>\<open>k_\<close>, read as two's complement.\<close>

definition static_cast_int :: "64 word \<Rightarrow> int" where
  "static_cast_int w = sint (ucast w :: 32 word)"

text \<open>One iteration of the loop body (lines 17 to 33), for the entry \<open>(fid, node)\<close>.\<close>

definition evict_visit :: "64 word \<Rightarrow> int \<Rightarrow> LRUKNode \<Rightarrow> scan \<Rightarrow> scan option" where
  "evict_visit kk frame_id node acc =
     (if \<not> IsEvictable node \<or> IsEmpty node then Some acc
      else if Size_node node < unat kk then
        (case EarliestTime node of
           None \<Rightarrow> None
         | Some earliest_in_node \<Rightarrow>
             (if earliest_fewer_k acc = 0 \<or> earliest_in_node < earliest_fewer_k acc
              then Some (acc\<lparr>has_inf := True, earliest_fewer_k := earliest_in_node,
                             evict_id := frame_id\<rparr>)
              else Some (acc\<lparr>has_inf := True\<rparr>)))
      else if \<not> has_inf acc \<and> Size_node node \<ge> unat kk then
        (case LastKTime node (static_cast_int kk) of
           None \<Rightarrow> None
         | Some last_k_time \<Rightarrow>
             (if earliest_backward_k acc = 0 \<or> last_k_time < earliest_backward_k acc
              then Some (acc\<lparr>earliest_backward_k := last_k_time, evict_id := frame_id\<rparr>)
              else Some acc))
      else Some acc)"

text \<open>
  The loop over \<^verbatim>\<open>node_store_\<close>. The container is a hash map, whose iteration order the
  program does not fix: the order is the parameter \<open>order\<close>, a list of the keys, and the
  theorems hold for every enumeration of the keys.
\<close>

fun evict_scan :: "replacer \<Rightarrow> int list \<Rightarrow> scan \<Rightarrow> scan option" where
  "evict_scan s [] acc = Some acc"
| "evict_scan s (f # fs) acc =
     (case node_store s f of
        None \<Rightarrow> evict_scan s fs acc
      | Some node \<Rightarrow>
          (case evict_visit (lru_k s) f node acc of
             None \<Rightarrow> None
           | Some acc' \<Rightarrow> evict_scan s fs acc'))"

text \<open>\<^verbatim>\<open>Evict\<close> returns \<^verbatim>\<open>true\<close> and the victim through \<^verbatim>\<open>*frame_id\<close>, or \<^verbatim>\<open>false\<close>: the result
  \<open>Some victim\<close> or \<open>None\<close>.\<close>

definition Evict :: "int list \<Rightarrow> replacer \<Rightarrow> (failure + int option) \<times> replacer" where
  "Evict order s =
     (case evict_scan s order scan_init of
        None \<Rightarrow> (Inl UndefinedBehaviour, s)
      | Some acc \<Rightarrow>
          (if evict_id acc \<noteq> - 1
           then (Inr (Some (evict_id acc)),
                 s\<lparr>replacer_size := replacer_size s - 1,
                   node_store := (node_store s)(evict_id acc \<mapsto>
                      ClearNode (subscript (node_store s) (evict_id acc)))\<rparr>)
           else (Inr None, s)))"

subsection \<open>\<^verbatim>\<open>RecordAccess\<close>, \<^verbatim>\<open>SetEvictable\<close>, \<^verbatim>\<open>Remove\<close>, \<^verbatim>\<open>Size\<close>\<close>

definition RecordAccess :: "replacer \<Rightarrow> int \<Rightarrow> (failure + unit) \<times> replacer" where
  "RecordAccess s frame_id =
     (if \<not> CheckFrameId s frame_id then (Inl InvalidFrameId, s)
      else
        let store = (if node_store s frame_id = None
                     then (node_store s)(frame_id \<mapsto> LRUKNode_new (lru_k s) frame_id)
                     else node_store s);
            ts = current_timestamp s + 1
        in (case AddHistory (subscript store frame_id) ts of
              None \<Rightarrow> (Inl UndefinedBehaviour, s)
            | Some node \<Rightarrow>
                (Inr (), s\<lparr>current_timestamp := ts, node_store := store(frame_id \<mapsto> node)\<rparr>)))"

definition SetEvictable :: "replacer \<Rightarrow> int \<Rightarrow> bool \<Rightarrow> (failure + unit) \<times> replacer" where
  "SetEvictable s frame_id set_evictable =
     (if \<not> CheckFrameId s frame_id then (Inl InvalidFrameId, s)
      else if node_store s frame_id = None \<or> IsEmpty (subscript (node_store s) frame_id)
      then (Inr (), s)
      else
        let node = subscript (node_store s) frame_id in
        if set_evictable \<and> \<not> IsEvictable node then
          (Inr (), s\<lparr>replacer_size := replacer_size s + 1,
                     node_store := (node_store s)(frame_id \<mapsto> SetEvictable_node node set_evictable)\<rparr>)
        else if \<not> set_evictable \<and> IsEvictable node then
          (Inr (), s\<lparr>replacer_size := replacer_size s - 1,
                     node_store := (node_store s)(frame_id \<mapsto> SetEvictable_node node set_evictable)\<rparr>)
        else (Inr (), s))"

definition Remove :: "replacer \<Rightarrow> int \<Rightarrow> (failure + unit) \<times> replacer" where
  "Remove s frame_id =
     (if node_store s frame_id \<noteq> None \<and> \<not> IsEmpty (subscript (node_store s) frame_id) then
        let node = subscript (node_store s) frame_id in
        if \<not> IsEvictable node then (Inl FrameNonEvictable, s)
        else (Inr (), s\<lparr>node_store := (node_store s)(frame_id \<mapsto> ClearNode node),
                        replacer_size := replacer_size s - 1\<rparr>)
      else (Inr (), s))"

definition Size :: "replacer \<Rightarrow> 64 word" where
  "Size s = replacer_size s"

subsection \<open>Reachable states\<close>

text \<open>
  The states a caller can produce: the constructor with a positive window (the spec leaves
  \<open>k = 0\<close> unspecified), followed by any calls. A call that throws leaves the state it
  returns, which is the state it started from. \<^verbatim>\<open>Evict\<close> may meet the keys in any order.
\<close>

inductive reachable :: "replacer \<Rightarrow> bool" where
  init: "kk \<noteq> 0 \<Longrightarrow> reachable (LRUKReplacer num_frames kk)"
| record_access: "reachable s \<Longrightarrow> reachable (snd (RecordAccess s frame_id))"
| set_evictable: "reachable s \<Longrightarrow> reachable (snd (SetEvictable s frame_id b))"
| remove: "reachable s \<Longrightarrow> reachable (snd (Remove s frame_id))"
| evict: "reachable s \<Longrightarrow> distinct order \<Longrightarrow> set order = dom (node_store s)
            \<Longrightarrow> reachable (snd (Evict order s))"

subsection \<open>The latch\<close>

text \<open>
  \<^verbatim>\<open>std::scoped_lock<std::mutex> lock(latch_);\<close> is the first statement of \<^verbatim>\<open>Evict\<close>,
  \<^verbatim>\<open>RecordAccess\<close>, \<^verbatim>\<open>SetEvictable\<close> and \<^verbatim>\<open>Remove\<close>: it acquires \<^verbatim>\<open>latch_\<close> and releases it when the
  function is left, by \<^verbatim>\<open>return\<close> or by an exception. The body of \<^verbatim>\<open>Size\<close> is
  \<^verbatim>\<open>return replacer_size_;\<close> and nothing else. The record below puts the latch next to the
  members of the replacer, with a flag that is raised when the members are read or written
  by a caller that does not hold the latch.
\<close>

record latched_replacer =
  members :: replacer
  latch_held :: bool
  unlatched_access :: bool

definition scoped_lock :: "latched_replacer \<Rightarrow> latched_replacer" where
  "scoped_lock l = l\<lparr>latch_held := True\<rparr>"

definition unlock :: "latched_replacer \<Rightarrow> latched_replacer" where
  "unlock l = l\<lparr>latch_held := False\<rparr>"

definition touch :: "latched_replacer \<Rightarrow> latched_replacer" where
  "touch l = (if latch_held l then l else l\<lparr>unlatched_access := True\<rparr>)"

text \<open>A body that runs between the construction and the destruction of the
  \<^verbatim>\<open>scoped_lock\<close>.\<close>

definition under_latch ::
  "(replacer \<Rightarrow> 'a \<times> replacer) \<Rightarrow> latched_replacer \<Rightarrow> 'a \<times> latched_replacer" where
  "under_latch body l =
     (let l1 = touch (scoped_lock l);
          r = body (members l1)
      in (fst r, unlock (l1\<lparr>members := snd r\<rparr>)))"

definition Evict_latched ::
  "int list \<Rightarrow> latched_replacer \<Rightarrow> (failure + int option) \<times> latched_replacer" where
  "Evict_latched order l = under_latch (Evict order) l"

definition RecordAccess_latched ::
  "latched_replacer \<Rightarrow> int \<Rightarrow> (failure + unit) \<times> latched_replacer" where
  "RecordAccess_latched l frame_id = under_latch (\<lambda>s. RecordAccess s frame_id) l"

definition SetEvictable_latched ::
  "latched_replacer \<Rightarrow> int \<Rightarrow> bool \<Rightarrow> (failure + unit) \<times> latched_replacer" where
  "SetEvictable_latched l frame_id set_evictable =
     under_latch (\<lambda>s. SetEvictable s frame_id set_evictable) l"

definition Remove_latched ::
  "latched_replacer \<Rightarrow> int \<Rightarrow> (failure + unit) \<times> latched_replacer" where
  "Remove_latched l frame_id = under_latch (\<lambda>s. Remove s frame_id) l"

text \<open>\<^verbatim>\<open>Size\<close> reads \<^verbatim>\<open>replacer_size_\<close> with no \<^verbatim>\<open>scoped_lock\<close> around the read.\<close>

definition Size_latched :: "latched_replacer \<Rightarrow> 64 word \<times> latched_replacer" where
  "Size_latched l = (let l1 = touch l in (Size (members l1), l1))"

subsection \<open>Notions used to state the properties\<close>

text \<open>The ids of the Frame Records whose evictable flag is true.\<close>

definition evictable_ids :: "replacer \<Rightarrow> int set" where
  "evictable_ids s = {f. \<exists>n. node_store s f = Some n \<and> is_evictable n}"

text \<open>
  Well-formed stores: the window is positive, every tracked id passed \<^verbatim>\<open>CheckFrameId\<close>, each
  node carries the replacer's window, no history is longer than the window, and an
  evictable node has a history.
\<close>

definition wf_store :: "replacer \<Rightarrow> bool" where
  "wf_store s \<longleftrightarrow>
     lru_k s \<noteq> 0 \<and>
     (\<forall>f n. node_store s f = Some n \<longrightarrow>
        0 \<le> f \<and> f < uint (max_num_frames s) \<and> node_k n = lru_k s \<and>
        length (history n) \<le> unat (lru_k s) \<and> (is_evictable n \<longrightarrow> history n \<noteq> []))"

text \<open>The cached counter agrees with the number of evictable Frame Records.\<close>

definition size_inv :: "replacer \<Rightarrow> bool" where
  "size_inv s \<longleftrightarrow> unat (replacer_size s) = card (evictable_ids s)"

text \<open>The history recorded for an id; empty for an id without a Frame Record.\<close>

definition history_at :: "replacer \<Rightarrow> int \<Rightarrow> nat list" where
  "history_at s f = (case node_store s f of None \<Rightarrow> [] | Some n \<Rightarrow> history n)"

text \<open>
  Clock values in the histories: positive and not beyond the clock, strictly increasing
  within one frame, and never shared by two frames.
\<close>

definition clock_inv :: "replacer \<Rightarrow> bool" where
  "clock_inv s \<longleftrightarrow>
     (\<forall>f. (\<forall>t \<in> set (history_at s f). 0 < t \<and> t \<le> current_timestamp s) \<and>
          sorted_wrt (<) (history_at s f)) \<and>
     (\<forall>f g. f \<noteq> g \<longrightarrow> set (history_at s f) \<inter> set (history_at s g) = {})"

text \<open>
  The two partitions of the eviction candidates (evictable, non-empty records): Short
  frames have fewer than \<open>k\<close> recorded accesses, Full frames have \<open>k\<close> or more.
\<close>

definition short_frame :: "replacer \<Rightarrow> int \<Rightarrow> bool" where
  "short_frame s f =
     (case node_store s f of
        None \<Rightarrow> False
      | Some n \<Rightarrow> is_evictable n \<and> history n \<noteq> [] \<and> length (history n) < unat (lru_k s))"

definition full_frame :: "replacer \<Rightarrow> int \<Rightarrow> bool" where
  "full_frame s f =
     (case node_store s f of
        None \<Rightarrow> False
      | Some n \<Rightarrow> is_evictable n \<and> history n \<noteq> [] \<and> unat (lru_k s) \<le> length (history n))"


text \<open>
  The entry that \<^verbatim>\<open>Evict\<close> reads for a Full frame: \<^verbatim>\<open>LastKTime\<close> is called with
  \<^verbatim>\<open>static_cast<int>(k_)\<close>, so it is the entry that many accesses back. It is the \<open>k\<close>-th most
  recent access when the cast keeps the value of \<^verbatim>\<open>k_\<close>.
\<close>

definition last_k_time :: "replacer \<Rightarrow> int \<Rightarrow> nat" where
  "last_k_time s f =
     history_at s f ! (length (history_at s f) - nat (static_cast_int (lru_k s)))"


text \<open>
  What the loop of \<^verbatim>\<open>Evict\<close> has established after the keys \<open>xs\<close>: \<^verbatim>\<open>has_inf\<close> tells whether
  a Short frame was met; if so the candidate is a Short frame with the least oldest entry
  so far, otherwise it is a Full frame with the least entry read by \<^verbatim>\<open>LastKTime\<close> so far, or
  still the sentinel.
\<close>

definition scan_post :: "replacer \<Rightarrow> int list \<Rightarrow> scan \<Rightarrow> bool" where
  "scan_post s xs acc \<longleftrightarrow>
     (has_inf acc \<longleftrightarrow> (\<exists>f \<in> set xs. short_frame s f)) \<and>
     (has_inf acc \<longrightarrow>
        evict_id acc \<in> set xs \<and> short_frame s (evict_id acc) \<and>
        earliest_fewer_k acc = hd (history_at s (evict_id acc)) \<and>
        (\<forall>g \<in> set xs. short_frame s g \<longrightarrow> earliest_fewer_k acc \<le> hd (history_at s g))) \<and>
     (\<not> has_inf acc \<longrightarrow>
        earliest_fewer_k acc = 0 \<and>
        (if \<exists>f \<in> set xs. full_frame s f
         then evict_id acc \<in> set xs \<and> full_frame s (evict_id acc) \<and>
              earliest_backward_k acc = last_k_time s (evict_id acc) \<and>
              (\<forall>g \<in> set xs. full_frame s g \<longrightarrow> earliest_backward_k acc \<le> last_k_time s g)
         else evict_id acc = - 1 \<and> earliest_backward_k acc = 0))"


subsection \<open>Scenarios of the specification\<close>

text \<open>
  Scenario A of the specification: capacity 10, \<open>k = 2\<close>; accesses to the frames 1, 2, 1, 3,
  4; then the frames 1 to 4 are marked evictable. Scenarios B and C continue it with one
  and two evictions.
\<close>

definition accessed_A :: replacer where
  "accessed_A =
     snd (RecordAccess (snd (RecordAccess (snd (RecordAccess (snd (RecordAccess
       (snd (RecordAccess (LRUKReplacer 10 2) 1)) 2)) 1)) 3)) 4)"

definition scenario_A :: replacer where
  "scenario_A =
     snd (SetEvictable (snd (SetEvictable (snd (SetEvictable (snd (SetEvictable
       accessed_A 1 True)) 2 True)) 3 True)) 4 True)"

definition scenario_B :: replacer where
  "scenario_B = snd (Evict [1, 2, 3, 4] scenario_A)"

definition scenario_C :: replacer where
  "scenario_C = snd (Evict [1, 2, 3, 4] scenario_B)"



subsection \<open>States with a window beyond the range of \<^verbatim>\<open>int\<close>\<close>




section \<open>Invariants of the reachable states\<close>

subsection \<open>Well-formed stores\<close>

lemma AddHistory_Some:
  "node_k n \<noteq> 0 \<Longrightarrow> \<exists>n'. AddHistory n ts = Some n'"
  by (auto simp: AddHistory_def unat_eq_0 split: list.splits)

lemma AddHistory_fields:
  "AddHistory n ts = Some n' \<Longrightarrow>
     node_k n' = node_k n \<and> node_fid n' = node_fid n \<and> is_evictable n' = is_evictable n \<and>
     history n' = (if length (history n) = unat (node_k n) then tl (history n) else history n) @ [ts]"
  by (auto simp: AddHistory_def split: if_splits list.splits)

lemma evict_visit_id:
  "evict_visit kk f node acc = Some acc' \<Longrightarrow>
     evict_id acc' = evict_id acc \<or> (evict_id acc' = f \<and> is_evictable node \<and> history node \<noteq> [])"
  by (auto simp: evict_visit_def IsEvictable_def IsEmpty_def split: if_splits option.splits)

lemma evict_scan_id:
  "evict_scan s xs acc = Some acc' \<Longrightarrow>
     evict_id acc' = evict_id acc \<or>
     (\<exists>n. node_store s (evict_id acc') = Some n \<and> is_evictable n \<and> history n \<noteq> []
          \<and> evict_id acc' \<in> set xs)"
proof (induction xs arbitrary: acc)
  case Nil
  then show ?case by simp
next
  case (Cons f fs)
  show ?case
  proof (cases "node_store s f")
    case None
    with Cons show ?thesis by auto
  next
    case (Some node)
    with Cons.prems obtain a where v: "evict_visit (lru_k s) f node acc = Some a"
      and r: "evict_scan s fs a = Some acc'"
      by (auto split: option.splits)
    from Cons.IH [OF r] evict_visit_id [OF v] Some show ?thesis by auto
  qed
qed

lemma Evict_cases:
  obtains (undefined) "Evict order s = (Inl UndefinedBehaviour, s)"
  | (none) "Evict order s = (Inr None, s)"
  | (victim) v n where "Evict order s =
        (Inr (Some v), s\<lparr>replacer_size := replacer_size s - 1,
                         node_store := (node_store s)(v \<mapsto> ClearNode n)\<rparr>)"
      "node_store s v = Some n" "is_evictable n" "history n \<noteq> []" "v \<in> set order"
proof (cases "evict_scan s order scan_init")
  case None
  then show ?thesis using undefined by (simp add: Evict_def)
next
  case (Some acc)
  show ?thesis
  proof (cases "evict_id acc = - 1")
    case True
    with Some show ?thesis using none by (simp add: Evict_def)
  next
    case False
    with evict_scan_id [OF Some] obtain n where
      n: "node_store s (evict_id acc) = Some n" "is_evictable n" "history n \<noteq> []"
         "evict_id acc \<in> set order"
      by (auto simp: scan_init_def)
    show ?thesis
      by (rule victim [of "evict_id acc" n]) (use Some False n in \<open>simp_all add: Evict_def subscript_def\<close>)
  qed
qed

lemma wf_store_init: "kk \<noteq> 0 \<Longrightarrow> wf_store (LRUKReplacer c kk)"
  by (simp add: wf_store_def LRUKReplacer_def)

lemma wf_store_RecordAccess:
  assumes "wf_store s" shows "wf_store (snd (RecordAccess s f))"
proof (cases "CheckFrameId s f")
  case False
  with assms show ?thesis by (simp add: RecordAccess_def)
next
  case True
  define n0 where "n0 = (case node_store s f of None \<Rightarrow> LRUKNode_new (lru_k s) f | Some n \<Rightarrow> n)"
  have k0: "node_k n0 = lru_k s" and len0: "length (history n0) \<le> unat (lru_k s)"
    using assms by (auto simp: n0_def wf_store_def LRUKNode_new_def split: option.splits)
  from assms have "node_k n0 \<noteq> 0" by (simp add: k0 wf_store_def)
  then obtain n' where a: "AddHistory n0 (current_timestamp s + 1) = Some n'"
    using AddHistory_Some by blast
  have eq: "snd (RecordAccess s f) =
      s\<lparr>current_timestamp := current_timestamp s + 1, node_store := (node_store s)(f \<mapsto> n')\<rparr>"
    using True a by (auto simp: RecordAccess_def Let_def subscript_def n0_def split: option.splits)
  have kpos: "0 < unat (lru_k s)"
    using assms by (simp add: wf_store_def unat_gt_0)
  have "length (history n') \<le> unat (lru_k s)" "history n' \<noteq> []" "node_k n' = lru_k s"
    using AddHistory_fields [OF a] k0 len0 kpos by (auto split: if_splits)
  with assms True show ?thesis
    unfolding eq by (auto simp: wf_store_def CheckFrameId_def)
qed

lemma wf_store_SetEvictable:
  assumes "wf_store s" shows "wf_store (snd (SetEvictable s f b))"
  using assms
  by (auto simp: SetEvictable_def Let_def wf_store_def subscript_def IsEmpty_def
      SetEvictable_node_def IsEvictable_def split: option.splits)

lemma wf_store_Remove:
  assumes "wf_store s" shows "wf_store (snd (Remove s f))"
  using assms
  by (auto simp: Remove_def Let_def wf_store_def subscript_def IsEmpty_def
      ClearNode_def IsEvictable_def split: option.splits)

lemma wf_store_Evict:
  assumes "wf_store s" shows "wf_store (snd (Evict order s))"
proof (cases rule: Evict_cases [of order s])
  case (victim v n)
  with assms show ?thesis by (auto simp: wf_store_def ClearNode_def)
qed (use assms in simp_all)

lemma reachable_wf_store: "reachable s \<Longrightarrow> wf_store s"
  by (induction rule: reachable.induct)
     (simp_all add: wf_store_init wf_store_RecordAccess wf_store_SetEvictable wf_store_Remove wf_store_Evict)

subsection \<open>The evictable count\<close>

lemma evictable_ids_bound:
  assumes "wf_store s"
  shows "evictable_ids s \<subseteq> {0..<uint (max_num_frames s)}"
  using assms by (auto simp: evictable_ids_def wf_store_def)

lemma finite_evictable_ids: "wf_store s \<Longrightarrow> finite (evictable_ids s)"
  using evictable_ids_bound finite_atLeastLessThan_int finite_subset by blast

lemma card_evictable_ids_less:
  assumes "wf_store s"
  shows "card (evictable_ids s) < 2 ^ 64"
proof -
  have "card (evictable_ids s) \<le> card {0..<uint (max_num_frames s)}"
    by (rule card_mono) (simp_all add: evictable_ids_bound [OF assms])
  also have "\<dots> = unat (max_num_frames s)"
    by simp
  also have "\<dots> < 2 ^ 64"
    using unsigned_less [of "max_num_frames s", where ?'a = nat] by simp
  finally show ?thesis .
qed

lemma unat_incr:
  fixes x :: "64 word"
  assumes "Suc (unat x) < 2 ^ 64"
  shows "unat (x + 1) = Suc (unat x)"
  using assms unat_add_lem [of x 1] by simp

lemma unat_decr:
  fixes x :: "64 word"
  assumes "0 < unat x"
  shows "unat (x - 1) = unat x - 1"
  using assms by (simp add: unat_minus_one unat_gt_0)

lemma evictable_ids_upd:
  "evictable_ids (s\<lparr>replacer_size := r, node_store := (node_store s)(f \<mapsto> n)\<rparr>) =
     (if is_evictable n then insert f (evictable_ids s) else evictable_ids s - {f})"
  by (auto simp: evictable_ids_def)

lemma size_inv_insert:
  assumes wf: "wf_store s" and si: "size_inv s"
    and wf': "wf_store (s\<lparr>replacer_size := replacer_size s + 1, node_store := (node_store s)(f \<mapsto> n)\<rparr>)"
    and f: "f \<notin> evictable_ids s" and n: "is_evictable n"
  shows "size_inv (s\<lparr>replacer_size := replacer_size s + 1, node_store := (node_store s)(f \<mapsto> n)\<rparr>)"
proof -
  let ?s' = "s\<lparr>replacer_size := replacer_size s + 1, node_store := (node_store s)(f \<mapsto> n)\<rparr>"
  have e: "evictable_ids ?s' = insert f (evictable_ids s)"
    using n by (simp add: evictable_ids_upd)
  have c: "card (evictable_ids ?s') = Suc (card (evictable_ids s))"
    unfolding e using f finite_evictable_ids [OF wf] by simp
  have "Suc (unat (replacer_size s)) < 2 ^ 64"
    using card_evictable_ids_less [OF wf'] c si by (simp add: size_inv_def)
  then have "unat (replacer_size s + 1) = Suc (unat (replacer_size s))"
    by (rule unat_incr)
  with c si show ?thesis by (simp add: size_inv_def)
qed

lemma size_inv_remove:
  assumes wf: "wf_store s" and si: "size_inv s"
    and f: "f \<in> evictable_ids s" and n: "\<not> is_evictable n"
  shows "size_inv (s\<lparr>replacer_size := replacer_size s - 1, node_store := (node_store s)(f \<mapsto> n)\<rparr>)"
proof -
  let ?s' = "s\<lparr>replacer_size := replacer_size s - 1, node_store := (node_store s)(f \<mapsto> n)\<rparr>"
  have e: "evictable_ids ?s' = evictable_ids s - {f}"
    using n by (simp add: evictable_ids_upd)
  have pos: "0 < card (evictable_ids s)"
    using f finite_evictable_ids [OF wf] by (auto simp: card_gt_0_iff)
  have c: "card (evictable_ids ?s') = card (evictable_ids s) - 1"
    unfolding e using f finite_evictable_ids [OF wf] by simp
  have "unat (replacer_size s - 1) = unat (replacer_size s) - 1"
    by (rule unat_decr) (use pos si in \<open>simp add: size_inv_def\<close>)
  with c si show ?thesis by (simp add: size_inv_def)
qed

lemma size_inv_init: "size_inv (LRUKReplacer c kk)"
  by (simp add: size_inv_def LRUKReplacer_def evictable_ids_def)

lemma evictable_ids_RecordAccess:
  "evictable_ids (snd (RecordAccess s f)) = evictable_ids s"
proof -
  have "is_evictable n' = (\<exists>n. node_store s f = Some n \<and> is_evictable n)"
    if "AddHistory (subscript (if node_store s f = None
            then (node_store s)(f \<mapsto> LRUKNode_new (lru_k s) f) else node_store s) f) ts = Some n'"
    for n' ts
    using AddHistory_fields [OF that]
    by (auto simp: subscript_def LRUKNode_new_def split: if_splits)
  then show ?thesis
    by (auto simp: RecordAccess_def Let_def evictable_ids_def split: option.splits)
qed

lemma size_inv_RecordAccess:
  assumes "size_inv s" shows "size_inv (snd (RecordAccess s f))"
proof -
  have "replacer_size (snd (RecordAccess s f)) = replacer_size s"
    by (simp add: RecordAccess_def Let_def split: option.splits)
  with assms evictable_ids_RecordAccess [of s f] show ?thesis
    by (simp add: size_inv_def)
qed

lemma SetEvictable_cases:
  obtains (same) "snd (SetEvictable s f b) = s"
  | (on) n where "b" "node_store s f = Some n" "\<not> is_evictable n" "history n \<noteq> []"
      "CheckFrameId s f"
      "SetEvictable s f b = (Inr (), s\<lparr>replacer_size := replacer_size s + 1,
          node_store := (node_store s)(f \<mapsto> n\<lparr>is_evictable := True\<rparr>)\<rparr>)"
  | (off) n where "\<not> b" "node_store s f = Some n" "is_evictable n" "history n \<noteq> []"
      "CheckFrameId s f"
      "SetEvictable s f b = (Inr (), s\<lparr>replacer_size := replacer_size s - 1,
          node_store := (node_store s)(f \<mapsto> n\<lparr>is_evictable := False\<rparr>)\<rparr>)"
proof (cases "CheckFrameId s f \<and> (\<exists>n. node_store s f = Some n \<and> history n \<noteq> [] \<and> is_evictable n \<noteq> b)")
  case False
  then have "snd (SetEvictable s f b) = s"
    by (cases "node_store s f")
       (auto simp: SetEvictable_def Let_def subscript_def IsEmpty_def IsEvictable_def)
  then show ?thesis by (rule same)
next
  case True
  then obtain n where n: "CheckFrameId s f" "node_store s f = Some n" "history n \<noteq> []"
      "is_evictable n \<noteq> b"
    by blast
  show ?thesis
  proof (cases b)
    case True
    show ?thesis
      by (rule on [of n])
         (use n True in \<open>simp_all add: SetEvictable_def Let_def subscript_def IsEmpty_def
            IsEvictable_def SetEvictable_node_def\<close>)
  next
    case False
    show ?thesis
      by (rule off [of n])
         (use n False in \<open>simp_all add: SetEvictable_def Let_def subscript_def IsEmpty_def
            IsEvictable_def SetEvictable_node_def\<close>)
  qed
qed

lemma size_inv_SetEvictable:
  assumes wf: "wf_store s" and si: "size_inv s"
  shows "size_inv (snd (SetEvictable s f b))"
proof (cases rule: SetEvictable_cases [of s f b])
  case same
  with si show ?thesis by simp
next
  case (on n)
  have "wf_store (snd (SetEvictable s f b))"
    by (rule wf_store_SetEvictable [OF wf])
  then show ?thesis
    unfolding on(6) snd_conv
    by (intro size_inv_insert [OF wf si]) (use on in \<open>auto simp: evictable_ids_def\<close>)
next
  case (off n)
  show ?thesis
    unfolding off(6) snd_conv
    by (intro size_inv_remove [OF wf si]) (use off in \<open>auto simp: evictable_ids_def\<close>)
qed

lemma Remove_cases:
  obtains (noop) "Remove s f = (Inr (), s)"
      "node_store s f = None \<or> (\<exists>n. node_store s f = Some n \<and> history n = [])"
  | (in_use) n where "Remove s f = (Inl FrameNonEvictable, s)"
      "node_store s f = Some n" "\<not> is_evictable n" "history n \<noteq> []"
  | (removed) n where "node_store s f = Some n" "is_evictable n" "history n \<noteq> []"
      "Remove s f = (Inr (), s\<lparr>replacer_size := replacer_size s - 1,
          node_store := (node_store s)(f \<mapsto> n\<lparr>history := [], is_evictable := False\<rparr>)\<rparr>)"
  by (cases "node_store s f")
     (auto simp: Remove_def Let_def subscript_def IsEmpty_def IsEvictable_def
        ClearNode_def split: if_splits)

lemma size_inv_Remove:
  assumes wf: "wf_store s" and si: "size_inv s"
  shows "size_inv (snd (Remove s f))"
proof (cases rule: Remove_cases [of s f])
  case (removed n)
  show ?thesis
    unfolding removed(4) snd_conv
    by (intro size_inv_remove [OF wf si]) (use removed in \<open>auto simp: evictable_ids_def\<close>)
qed (use si in simp_all)

lemma size_inv_Evict:
  assumes wf: "wf_store s" and si: "size_inv s"
  shows "size_inv (snd (Evict order s))"
proof (cases rule: Evict_cases [of order s])
  case (victim v n)
  show ?thesis
    unfolding victim(1) snd_conv
    by (intro size_inv_remove [OF wf si]) (use victim in \<open>auto simp: evictable_ids_def ClearNode_def\<close>)
qed (use si in simp_all)

lemma reachable_size_inv: "reachable s \<Longrightarrow> size_inv s"
  by (induction rule: reachable.induct)
     (simp_all add: size_inv_init size_inv_RecordAccess size_inv_SetEvictable
        size_inv_Remove size_inv_Evict reachable_wf_store)

subsection \<open>Clock values\<close>

lemma RecordAccess_cases [consumes 1, case_names invalid recorded]:
  assumes "wf_store s"
  obtains (invalid) "\<not> CheckFrameId s f" "RecordAccess s f = (Inl InvalidFrameId, s)"
  | (recorded) n' where "CheckFrameId s f"
      "RecordAccess s f = (Inr (), s\<lparr>current_timestamp := current_timestamp s + 1,
          node_store := (node_store s)(f \<mapsto> n')\<rparr>)"
      "history n' = (if length (history_at s f) = unat (lru_k s)
                     then tl (history_at s f) else history_at s f) @ [current_timestamp s + 1]"
      "is_evictable n' = (\<exists>n. node_store s f = Some n \<and> is_evictable n)"
      "node_k n' = lru_k s"
proof (cases "CheckFrameId s f")
  case False
  then show ?thesis using invalid by (simp add: RecordAccess_def)
next
  case True
  define n0 where "n0 = (case node_store s f of None \<Rightarrow> LRUKNode_new (lru_k s) f | Some n \<Rightarrow> n)"
  have k0: "node_k n0 = lru_k s" and h0: "history n0 = history_at s f"
    and e0: "is_evictable n0 = (\<exists>n. node_store s f = Some n \<and> is_evictable n)"
    using assms by (auto simp: n0_def wf_store_def LRUKNode_new_def history_at_def split: option.splits)
  from assms have "node_k n0 \<noteq> 0" by (simp add: k0 wf_store_def)
  then obtain n' where a: "AddHistory n0 (current_timestamp s + 1) = Some n'"
    using AddHistory_Some by blast
  have eq: "RecordAccess s f =
      (Inr (), s\<lparr>current_timestamp := current_timestamp s + 1, node_store := (node_store s)(f \<mapsto> n')\<rparr>)"
    using True a by (auto simp: RecordAccess_def Let_def subscript_def n0_def split: option.splits)
  show ?thesis
    by (rule recorded [of n']) (use True eq AddHistory_fields [OF a] k0 h0 e0 in simp_all)
qed

lemma history_at_upd:
  "history_at (s\<lparr>node_store := (node_store s)(f \<mapsto> n)\<rparr>) g = (if g = f then history n else history_at s g)"
  "history_at (s\<lparr>replacer_size := r, node_store := (node_store s)(f \<mapsto> n)\<rparr>) g =
     (if g = f then history n else history_at s g)"
  "history_at (s\<lparr>current_timestamp := c, node_store := (node_store s)(f \<mapsto> n)\<rparr>) g =
     (if g = f then history n else history_at s g)"
  by (simp_all add: history_at_def)

lemma clock_inv_init: "clock_inv (LRUKReplacer c kk)"
  by (simp add: clock_inv_def LRUKReplacer_def history_at_def)

lemma sorted_wrt_less_tl: "sorted_wrt (<) (xs :: nat list) \<Longrightarrow> sorted_wrt (<) (tl xs)"
  by (cases xs) simp_all

lemma set_tl_subset: "set (tl xs) \<subseteq> set xs"
  by (cases xs) auto

lemma clock_inv_RecordAccess:
  assumes wf: "wf_store s" and ci: "clock_inv s"
  shows "clock_inv (snd (RecordAccess s f))"
  using wf
proof (cases rule: RecordAccess_cases [where f = f])
  case invalid
  with ci show ?thesis by simp
next
  case (recorded n')
  let ?c = "current_timestamp s"
  define h where "h = (if length (history_at s f) = unat (lru_k s)
                     then tl (history_at s f) else history_at s f)"
  have hn: "history n' = h @ [?c + 1]"
    using recorded(3) by (simp add: h_def)
  have sub: "set h \<subseteq> set (history_at s f)"
    using set_tl_subset [of "history_at s f"] by (auto simp: h_def)
  have old: "0 < t \<and> t \<le> ?c" if "t \<in> set (history_at s g)" for t g
    using ci that by (auto simp: clock_inv_def)
  have srt: "sorted_wrt (<) (history_at s g)" for g
    using ci by (simp add: clock_inv_def)
  have sh: "sorted_wrt (<) h"
    using srt [of f] sorted_wrt_less_tl [of "history_at s f"] by (simp add: h_def)
  have s1: "sorted_wrt (<) (history n')"
    unfolding hn using sh sub old [of _ f] by (fastforce simp: sorted_wrt_append)
  have b1: "0 < t \<and> t \<le> ?c + 1" if "t \<in> set (history n')" for t
    using that sub old [of t f] unfolding hn by auto
  have d1: "set (history n') \<inter> set (history_at s g) = {}" if "g \<noteq> f" for g
  proof -
    have "set (history_at s f) \<inter> set (history_at s g) = {}"
      using ci that by (simp add: clock_inv_def)
    with sub have "set h \<inter> set (history_at s g) = {}"
      by blast
    moreover have "?c + 1 \<notin> set (history_at s g)"
      using old [of "?c + 1" g] by auto
    ultimately show ?thesis unfolding hn by auto
  qed
  have d2: "set (history_at s g) \<inter> set (history_at s g') = {}" if "g \<noteq> g'" for g g'
    using ci that by (simp add: clock_inv_def)
  show ?thesis
    unfolding recorded(2) snd_conv clock_inv_def history_at_upd
    using s1 b1 d1 d2 srt old by (auto simp: le_Suc_eq dest: old) 
qed

lemma clock_inv_SetEvictable:
  assumes "clock_inv s" shows "clock_inv (snd (SetEvictable s f b))"
proof (cases rule: SetEvictable_cases [of s f b])
  case same
  with assms show ?thesis by simp
next
  case (on n)
  have "history_at (snd (SetEvictable s f b)) = history_at s"
    unfolding on(6) snd_conv using on(2) by (auto simp: history_at_def fun_eq_iff)
  with assms show ?thesis unfolding on(6) by (simp add: clock_inv_def)
next
  case (off n)
  have "history_at (snd (SetEvictable s f b)) = history_at s"
    unfolding off(6) snd_conv using off(2) by (auto simp: history_at_def fun_eq_iff)
  with assms show ?thesis unfolding off(6) by (simp add: clock_inv_def)
qed

lemma clock_inv_clear:
  assumes "clock_inv s" and "history n = []"
  shows "clock_inv (s\<lparr>replacer_size := r, node_store := (node_store s)(f \<mapsto> n)\<rparr>)"
  using assms unfolding clock_inv_def history_at_upd by auto

lemma clock_inv_Remove:
  assumes "clock_inv s" shows "clock_inv (snd (Remove s f))"
proof (cases rule: Remove_cases [of s f])
  case (removed n)
  show ?thesis
    unfolding removed(4) snd_conv by (rule clock_inv_clear [OF assms]) simp
qed (use assms in simp_all)

lemma clock_inv_Evict:
  assumes "clock_inv s" shows "clock_inv (snd (Evict order s))"
proof (cases rule: Evict_cases [of order s])
  case (victim v n)
  show ?thesis
    unfolding victim(1) snd_conv by (rule clock_inv_clear [OF assms]) (simp add: ClearNode_def)
qed (use assms in simp_all)

lemma reachable_clock_inv: "reachable s \<Longrightarrow> clock_inv s"
  by (induction rule: reachable.induct)
     (simp_all add: clock_inv_init clock_inv_RecordAccess clock_inv_SetEvictable
        clock_inv_Remove clock_inv_Evict reachable_wf_store)

subsection \<open>The scan of \<^verbatim>\<open>Evict\<close>\<close>

lemma static_cast_int_small:
  fixes w :: "64 word"
  assumes "unat w < 2 ^ 31"
  shows "static_cast_int w = int (unat w)"
proof -
  have i: "int (unat w) = uint w"
    by simp
  have "int (unat w) < int (2 ^ 31)"
    using assms by (simp only: of_nat_less_iff)
  then have b: "uint w < 2 ^ 31"
    unfolding i by simp
  have u: "uint (ucast w :: 32 word) = uint w"
    using b by (simp add: unsigned_ucast_eq take_bit_int_eq_self)
  have "sint (ucast w :: 32 word) = signed_take_bit 31 (uint (ucast w :: 32 word))"
    by (simp add: sint_uint)
  also have "\<dots> = uint w"
    unfolding u
  proof (rule signed_take_bit_int_eq_self)
    have "0 \<le> uint w" by simp
    moreover have "- (2 ^ 31) \<le> (0::int)" by simp
    ultimately show "- (2 ^ 31) \<le> uint w" by (rule order_trans [rotated])
    show "uint w < 2 ^ 31" by (rule b)
  qed
  finally show ?thesis by (simp add: static_cast_int_def)
qed

lemma static_cast_int_le:
  fixes w :: "64 word"
  shows "static_cast_int w \<le> int (unat w)"
proof -
  have a: "uint (ucast w :: 32 word) \<le> uint w"
    by (simp add: unsigned_ucast_eq take_bit_int_less_eq_self_iff)
  have "(0::int) \<le> uint (ucast w :: 32 word)"
    by simp
  moreover have "- (2 ^ 31) \<le> (0::int)"
    by simp
  ultimately have "- (2 ^ 31) \<le> uint (ucast w :: 32 word)"
    by (rule order_trans [rotated])
  then have "signed_take_bit 31 (uint (ucast w :: 32 word)) \<le> uint (ucast w :: 32 word)"
    by (simp only: signed_take_bit_int_less_eq_self_iff)
  then have "sint (ucast w :: 32 word) \<le> uint (ucast w :: 32 word)"
    by (simp add: sint_uint)
  from this a have "static_cast_int w \<le> uint w"
    unfolding static_cast_int_def by (rule order_trans)
  then show ?thesis by simp
qed

lemma static_cast_int_nat_le:
  fixes w :: "64 word"
  shows "nat (static_cast_int w) \<le> unat w"
  using static_cast_int_le [of w] by linarith

lemma static_cast_int_small_pos:
  fixes w :: "64 word"
  assumes "w \<noteq> 0" "unat w < 2 ^ 31"
  shows "0 < static_cast_int w"
proof -
  have "0 < unat w"
    using assms(1) by (simp add: unat_gt_0)
  then show ?thesis
    by (simp only: static_cast_int_small [OF assms(2)] of_nat_0_less_iff)
qed

lemma evict_scan_append:
  "evict_scan s (xs @ ys) acc =
     (case evict_scan s xs acc of None \<Rightarrow> None | Some a \<Rightarrow> evict_scan s ys a)"
  by (induction xs arbitrary: acc) (auto split: option.splits)

lemma evict_scan_snoc:
  "evict_scan s (xs @ [f]) acc =
     (case evict_scan s xs acc of
        None \<Rightarrow> None
      | Some a \<Rightarrow> (case node_store s f of
                     None \<Rightarrow> Some a
                   | Some node \<Rightarrow> evict_visit (lru_k s) f node a))"
  by (auto simp: evict_scan_append split: option.splits)

lemma short_not_full: "short_frame s f \<Longrightarrow> \<not> full_frame s f"
  by (auto simp: short_frame_def full_frame_def split: option.splits)

lemma visit_skip:
  assumes "node_store s f = Some node" "\<not> short_frame s f" "\<not> full_frame s f"
  shows "evict_visit (lru_k s) f node a = Some a"
  using assms
  by (auto simp: evict_visit_def short_frame_def full_frame_def IsEvictable_def IsEmpty_def
      Size_node_def)

lemma visit_short:
  assumes "node_store s f = Some node" "short_frame s f"
  shows "evict_visit (lru_k s) f node a =
     Some (if earliest_fewer_k a = 0 \<or> hd (history_at s f) < earliest_fewer_k a
           then a\<lparr>has_inf := True, earliest_fewer_k := hd (history_at s f), evict_id := f\<rparr>
           else a\<lparr>has_inf := True\<rparr>)"
  using assms
  by (cases "history node")
     (auto simp: evict_visit_def short_frame_def IsEvictable_def IsEmpty_def Size_node_def
        EarliestTime_def history_at_def)

lemma visit_full:
  assumes "node_store s f = Some node" "full_frame s f"
    and "0 < static_cast_int (lru_k s)"
  shows "evict_visit (lru_k s) f node a =
     Some (if has_inf a then a
           else if earliest_backward_k a = 0 \<or> last_k_time s f < earliest_backward_k a
           then a\<lparr>earliest_backward_k := last_k_time s f, evict_id := f\<rparr>
           else a)"
proof -
  have len: "unat (lru_k s) \<le> length (history node)"
    using assms(1,2) by (simp add: full_frame_def)
  have "nat (static_cast_int (lru_k s)) \<le> length (history node)"
    using static_cast_int_nat_le [of "lru_k s"] len by (rule order_trans)
  then have "LastKTime node (static_cast_int (lru_k s)) = Some (last_k_time s f)"
    using assms(1,3) by (simp add: LastKTime_def last_k_time_def history_at_def)
  with assms(1,2) show ?thesis
    by (simp add: evict_visit_def full_frame_def IsEvictable_def IsEmpty_def Size_node_def)
qed

lemma hd_history_pos:
  assumes "clock_inv s" "short_frame s f"
  shows "0 < hd (history_at s f)"
proof -
  have "history_at s f \<noteq> []"
    using assms(2) by (auto simp: short_frame_def history_at_def split: option.splits)
  then have "hd (history_at s f) \<in> set (history_at s f)"
    by simp
  with assms(1) show ?thesis by (auto simp: clock_inv_def)
qed

lemma last_k_time_mem:
  assumes "full_frame s f" "0 < static_cast_int (lru_k s)"
  shows "last_k_time s f \<in> set (history_at s f)"
proof -
  have "history_at s f \<noteq> []"
    using assms(1) by (auto simp: full_frame_def history_at_def split: option.splits)
  moreover have "0 < nat (static_cast_int (lru_k s))"
    using assms(2) by simp
  ultimately have "length (history_at s f) - nat (static_cast_int (lru_k s))
      < length (history_at s f)"
    by simp
  then show ?thesis
    unfolding last_k_time_def by (rule nth_mem)
qed

lemma last_k_time_pos:
  assumes "clock_inv s" "full_frame s f" "0 < static_cast_int (lru_k s)"
  shows "0 < last_k_time s f"
  using last_k_time_mem [OF assms(2,3)] assms(1) by (auto simp: clock_inv_def)

lemma scan_post_skip:
  assumes "scan_post s xs a" "\<not> short_frame s f" "\<not> full_frame s f"
  shows "scan_post s (xs @ [f]) a"
  using assms unfolding scan_post_def by (auto split: if_splits)

lemma scan_post_short:
  assumes p: "scan_post s xs a" and f: "short_frame s f" and ci: "clock_inv s"
  shows "scan_post s (xs @ [f])
     (if earliest_fewer_k a = 0 \<or> hd (history_at s f) < earliest_fewer_k a
      then a\<lparr>has_inf := True, earliest_fewer_k := hd (history_at s f), evict_id := f\<rparr>
      else a\<lparr>has_inf := True\<rparr>)"
proof (cases "has_inf a")
  case False
  with p have z: "earliest_fewer_k a = 0" and none: "\<forall>g \<in> set xs. \<not> short_frame s g"
    by (auto simp: scan_post_def)
  with f show ?thesis
    by (auto simp: scan_post_def)
next
  case True
  with p have q: "evict_id a \<in> set xs" "short_frame s (evict_id a)"
      "earliest_fewer_k a = hd (history_at s (evict_id a))"
      "\<forall>g \<in> set xs. short_frame s g \<longrightarrow> earliest_fewer_k a \<le> hd (history_at s g)"
    by (auto simp: scan_post_def)
  have nz: "earliest_fewer_k a \<noteq> 0"
    using hd_history_pos [OF ci q(2)] q(3) by simp
  show ?thesis
  proof (cases "hd (history_at s f) < earliest_fewer_k a")
    case True
    with q f show ?thesis
      by (auto simp: scan_post_def) 
  next
    case False
    with q f nz True \<open>has_inf a\<close> show ?thesis
      by (auto simp: scan_post_def)
  qed
qed

lemma scan_post_full:
  assumes p: "scan_post s xs a" and f: "full_frame s f" and ci: "clock_inv s"
    and k: "0 < static_cast_int (lru_k s)"
  shows "scan_post s (xs @ [f])
     (if has_inf a then a
      else if earliest_backward_k a = 0 \<or> last_k_time s f < earliest_backward_k a
      then a\<lparr>earliest_backward_k := last_k_time s f, evict_id := f\<rparr>
      else a)"
proof (cases "has_inf a")
  case True
  with p short_not_full [of s f] f show ?thesis
    by (auto simp: scan_post_def)
next
  case False
  note nf = short_not_full [of s f]
  show ?thesis
  proof (cases "\<exists>g \<in> set xs. full_frame s g")
    case no: False
    with p False have "earliest_backward_k a = 0" "earliest_fewer_k a = 0"
      "\<forall>g \<in> set xs. \<not> short_frame s g"
      by (auto simp: scan_post_def)
    with no False f nf show ?thesis
      by (auto simp: scan_post_def)
  next
    case yes: True
    with p False have q: "evict_id a \<in> set xs" "full_frame s (evict_id a)"
        "earliest_backward_k a = last_k_time s (evict_id a)"
        "\<forall>g \<in> set xs. full_frame s g \<longrightarrow> earliest_backward_k a \<le> last_k_time s g"
        "earliest_fewer_k a = 0" "\<forall>g \<in> set xs. \<not> short_frame s g"
      by (auto simp: scan_post_def)
    have nz: "earliest_backward_k a \<noteq> 0"
      using last_k_time_pos [OF ci q(2) k] q(3) by simp
    show ?thesis
    proof (cases "last_k_time s f < earliest_backward_k a")
      case True
      with q f nf False yes show ?thesis
        by (auto simp: scan_post_def)
    next
      case lt: False
      with q f nf False yes nz show ?thesis
        by (auto simp: scan_post_def)
    qed
  qed
qed

lemma scan_post_init: "scan_post s [] scan_init"
  by (simp add: scan_post_def scan_init_def)

lemma evict_scan_post:
  assumes ci: "clock_inv s"
    and d: "0 < static_cast_int (lru_k s) \<or> (\<forall>g. \<not> full_frame s g)"
  shows "\<exists>acc. evict_scan s xs scan_init = Some acc \<and> scan_post s xs acc"
proof (induction xs rule: rev_induct)
  case Nil
  show ?case by (simp add: scan_post_init)
next
  case (snoc f xs)
  then obtain a where a: "evict_scan s xs scan_init = Some a" and p: "scan_post s xs a"
    by blast
  show ?case
  proof (cases "node_store s f")
    case None
    then have "\<not> short_frame s f" "\<not> full_frame s f"
      by (simp_all add: short_frame_def full_frame_def)
    with p have "scan_post s (xs @ [f]) a"
      by (rule scan_post_skip)
    with a None show ?thesis by (simp add: evict_scan_snoc)
  next
    case (Some node)
    consider (short) "short_frame s f" | (full) "full_frame s f"
      | (skip) "\<not> short_frame s f" "\<not> full_frame s f"
      by blast
    then show ?thesis
    proof cases
      case short
      from scan_post_short [OF p short ci] visit_short [OF Some short, of a] a Some
      show ?thesis by (simp add: evict_scan_snoc)
    next
      case full
      with d have c: "0 < static_cast_int (lru_k s)"
        by blast
      from scan_post_full [OF p full ci c] visit_full [OF Some full c, of a] a Some
      show ?thesis by (simp add: evict_scan_snoc)
    next
      case skip
      from scan_post_skip [OF p skip] visit_skip [OF Some skip, of a] a Some
      show ?thesis by (simp add: evict_scan_snoc)
    qed
  qed
qed

subsection \<open>The result of \<^verbatim>\<open>Evict\<close>\<close>

text \<open>Facts about \<^verbatim>\<open>has_inf\<close> that need no assumption on the state.\<close>

lemma visit_has_inf:
  assumes "node_store s f = Some node" "evict_visit (lru_k s) f node a = Some a'"
    and "\<not> has_inf a \<longrightarrow> earliest_fewer_k a = 0"
  shows "(has_inf a' \<longleftrightarrow> has_inf a \<or> short_frame s f) \<and>
         (has_inf a' \<longrightarrow> evict_id a' = f \<and> short_frame s f \<or> evict_id a' = evict_id a \<and> has_inf a) \<and>
         (\<not> has_inf a' \<longrightarrow> earliest_fewer_k a' = earliest_fewer_k a)"
  using assms
  by (auto simp: evict_visit_def short_frame_def IsEvictable_def IsEmpty_def Size_node_def
      split: if_splits option.splits)

lemma evict_scan_has_inf:
  assumes "evict_scan s xs scan_init = Some acc"
  shows "(has_inf acc \<longleftrightarrow> (\<exists>f \<in> set xs. short_frame s f)) \<and>
         (has_inf acc \<longrightarrow> short_frame s (evict_id acc)) \<and>
         (\<not> has_inf acc \<longrightarrow> earliest_fewer_k acc = 0)"
  using assms
proof (induction xs arbitrary: acc rule: rev_induct)
  case Nil
  then show ?case by (auto simp: scan_init_def)
next
  case (snoc f xs)
  from snoc.prems obtain a where a: "evict_scan s xs scan_init = Some a"
    and v: "(case node_store s f of None \<Rightarrow> Some a
             | Some node \<Rightarrow> evict_visit (lru_k s) f node a) = Some acc"
    by (auto simp: evict_scan_snoc split: option.splits)
  note ih = snoc.IH [OF a]
  show ?case
  proof (cases "node_store s f")
    case None
    then have "\<not> short_frame s f" by (simp add: short_frame_def)
    with ih v None show ?thesis by auto
  next
    case (Some node)
    with v have "evict_visit (lru_k s) f node a = Some acc" by simp
    from visit_has_inf [OF Some this] ih show ?thesis by auto
  qed
qed

lemma Evict_victim_short:
  assumes o: "set order = dom (node_store s)" and f: "short_frame s f"
    and v: "fst (Evict order s) = Inr (Some v)"
  shows "short_frame s v"
proof (cases "evict_scan s order scan_init")
  case None
  with v show ?thesis by (simp add: Evict_def)
next
  case (Some acc)
  with v have id: "evict_id acc = v"
    by (auto simp: Evict_def split: if_splits)
  from f o have "f \<in> set order"
    by (auto simp: short_frame_def split: option.splits)
  with f evict_scan_has_inf [OF Some] id show ?thesis by auto
qed

lemma short_frame_dom: "short_frame s f \<Longrightarrow> f \<in> dom (node_store s)"
  by (auto simp: short_frame_def split: option.splits)


lemma tracked_not_sentinel:
  assumes "wf_store s" "f \<in> dom (node_store s)" shows "f \<noteq> - 1"
proof -
  from assms(2) obtain n where "node_store s f = Some n" by blast
  with assms(1) have "0 \<le> f" unfolding wf_store_def by blast
  then show ?thesis by simp
qed

lemma hd_history_distinct:
  assumes ci: "clock_inv s" and "history_at s f \<noteq> []" "history_at s g \<noteq> []" "f \<noteq> g"
  shows "hd (history_at s f) \<noteq> hd (history_at s g)"
proof -
  have "hd (history_at s f) \<in> set (history_at s f)" "hd (history_at s g) \<in> set (history_at s g)"
    using assms by simp_all
  moreover have "set (history_at s f) \<inter> set (history_at s g) = {}"
    using ci \<open>f \<noteq> g\<close> by (simp add: clock_inv_def)
  ultimately show ?thesis by auto
qed

lemma short_frame_history: "short_frame s f \<Longrightarrow> history_at s f \<noteq> []"
  by (auto simp: short_frame_def history_at_def split: option.splits)






text \<open>With a Short frame present, the victim is the Short frame with the least oldest
  entry.\<close>

lemma Evict_short:
  assumes wf: "wf_store s" and ci: "clock_inv s"
    and d: "0 < static_cast_int (lru_k s) \<or> (\<forall>g. \<not> full_frame s g)"
    and o: "set order = dom (node_store s)" and f: "short_frame s f"
  shows "\<exists>v. fst (Evict order s) = Inr (Some v) \<and> short_frame s v \<and>
             (\<forall>g. short_frame s g \<and> g \<noteq> v \<longrightarrow> hd (history_at s v) < hd (history_at s g))"
proof -
  from evict_scan_post [OF ci d, of order] obtain acc
    where acc: "evict_scan s order scan_init = Some acc" and p: "scan_post s order acc"
    by blast
  have mem: "g \<in> set order" if "short_frame s g" for g
    using short_frame_dom [OF that] o by simp
  from p mem [OF f] f have hi: "has_inf acc"
    by (auto simp: scan_post_def)
  with p have q: "short_frame s (evict_id acc)"
      "earliest_fewer_k acc = hd (history_at s (evict_id acc))"
      "\<forall>g \<in> set order. short_frame s g \<longrightarrow> earliest_fewer_k acc \<le> hd (history_at s g)"
    by (auto simp: scan_post_def)
  have ne: "evict_id acc \<noteq> - 1"
    using tracked_not_sentinel [OF wf short_frame_dom [OF q(1)]] .
  have r: "fst (Evict order s) = Inr (Some (evict_id acc))"
    using acc ne by (simp add: Evict_def)
  have "hd (history_at s (evict_id acc)) < hd (history_at s g)"
    if g: "short_frame s g" "g \<noteq> evict_id acc" for g
  proof -
    have "hd (history_at s (evict_id acc)) \<le> hd (history_at s g)"
      using q(2,3) mem [OF g(1)] g(1) by auto
    moreover have "hd (history_at s (evict_id acc)) \<noteq> hd (history_at s g)"
      using hd_history_distinct [OF ci short_frame_history [OF q(1)] short_frame_history [OF g(1)]] g(2)
      by auto
    ultimately show ?thesis by simp
  qed
  with r q(1) show ?thesis by blast
qed












subsection \<open>States with a window beyond the range of \<^verbatim>\<open>int\<close>\<close>




















subsection \<open>Evaluation of the scenarios\<close>

lemmas model_defs = RecordAccess_def SetEvictable_def Remove_def Evict_def LRUKReplacer_def
  CheckFrameId_def subscript_def LRUKNode_new_def AddHistory_def IsEmpty_def IsEvictable_def
  SetEvictable_node_def ClearNode_def Size_node_def EarliestTime_def LastKTime_def
  evict_visit_def scan_init_def static_cast_int_def Let_def

lemma reachable_accessed_A: "reachable accessed_A"
  unfolding accessed_A_def
  by (intro reachable.record_access reachable.init) simp

lemma reachable_scenario_A: "reachable scenario_A"
  unfolding scenario_A_def
  by (intro reachable.set_evictable reachable_accessed_A)

lemma dom_scenario_A: "set [1, 2, 3, 4] = dom (node_store scenario_A)"
  by (simp add: scenario_A_def accessed_A_def model_defs insert_commute)

lemma reachable_scenario_B: "reachable scenario_B"
  unfolding scenario_B_def
  by (rule reachable.evict [OF reachable_scenario_A _ dom_scenario_A]) simp

lemma dom_scenario_B: "set [1, 2, 3, 4] = dom (node_store scenario_B)"
  by (simp add: scenario_B_def scenario_A_def accessed_A_def model_defs insert_commute)

lemma reachable_scenario_C: "reachable scenario_C"
  unfolding scenario_C_def
  by (rule reachable.evict [OF reachable_scenario_B _ dom_scenario_B]) simp

lemma dom_scenario_C: "set [1, 2, 3, 4] = dom (node_store scenario_C)"
  by (simp add: scenario_C_def scenario_B_def scenario_A_def accessed_A_def model_defs
      insert_commute)





section \<open>The claims\<close>

subsection \<open>Identifiers out of range\<close>

text \<open>
  Claim C7. For every id outside the range \<open>[0, capacity)\<close>, \<^verbatim>\<open>RecordAccess(id)\<close> fails with the
  invalid-identifier condition and leaves the whole replacer state as it was: no Frame
  Record is created and the clock is not advanced. (The check itself is \<^verbatim>\<open>CheckFrameId\<close>,
  modelled from the spec; that it comes before every update is the source's.)
\<close>

theorem RecordAccess_out_of_range:
  assumes "frame_id < 0 \<or> uint (max_num_frames s) \<le> frame_id"
  shows "RecordAccess s frame_id = (Inl InvalidFrameId, s)"
  using assms by (auto simp: RecordAccess_def CheckFrameId_def)

theorem RecordAccess_out_of_range_witness:
  "((10::int) < 0 \<or> uint (max_num_frames (LRUKReplacer 10 2)) \<le> 10) \<and>
   RecordAccess (LRUKReplacer 10 2) 10 = (Inl InvalidFrameId, LRUKReplacer 10 2) \<and>
   node_store (snd (RecordAccess (LRUKReplacer 10 2) 10)) 10 = None \<and>
   current_timestamp (snd (RecordAccess (LRUKReplacer 10 2) 10)) = 0"
proof -
  have h: "(10::int) < 0 \<or> uint (max_num_frames (LRUKReplacer 10 2)) \<le> 10"
    by (simp add: LRUKReplacer_def)
  from RecordAccess_out_of_range [OF h] h show ?thesis
    by (simp add: LRUKReplacer_def)
qed

subsection \<open>The eviction order\<close>

text \<open>
  Claim C1. When some evictable, non-empty frame has fewer than \<open>k\<close> recorded accesses (a
  Short frame), \<^verbatim>\<open>Evict\<close> never selects a frame with \<open>k\<close> or more accesses, whatever the clock
  values in the histories are and in whatever order the loop meets the frames: a victim
  is always a Short frame. This holds in every state, reachable or not. In a reachable
  state whose window fits the \<^verbatim>\<open>int\<close> that \<^verbatim>\<open>Evict\<close> casts it to, there is such a victim.
\<close>

theorem Evict_never_full_when_short:
  assumes "set order = dom (node_store s)" and "short_frame s f"
  shows "(\<forall>v. fst (Evict order s) = Inr (Some v) \<longrightarrow> short_frame s v \<and> \<not> full_frame s v) \<and>
         (reachable s \<and> unat (lru_k s) < 2 ^ 31 \<longrightarrow> (\<exists>v. fst (Evict order s) = Inr (Some v)))"
proof -
  have "short_frame s v \<and> \<not> full_frame s v" if "fst (Evict order s) = Inr (Some v)" for v
    using Evict_victim_short [OF assms that] short_not_full by blast
  moreover have "\<exists>v. fst (Evict order s) = Inr (Some v)"
    if "reachable s" "unat (lru_k s) < 2 ^ 31"
  proof -
    note wf = reachable_wf_store [OF that(1)]
    have "0 < static_cast_int (lru_k s)"
      using wf that(2) by (simp add: static_cast_int_small_pos wf_store_def)
    then have "0 < static_cast_int (lru_k s) \<or> (\<forall>g. \<not> full_frame s g)" ..
    from Evict_short [OF wf reachable_clock_inv [OF that(1)] this assms] show ?thesis
      by blast
  qed
  ultimately show ?thesis by blast
qed

text \<open>Scenario C: frame 1 is Full and older, frame 4 is Short; the victim is 4.\<close>

theorem Evict_never_full_when_short_witness:
  "set [1, 2, 3, 4] = dom (node_store scenario_C) \<and> short_frame scenario_C 4 \<and>
   full_frame scenario_C 1 \<and> reachable scenario_C \<and> unat (lru_k scenario_C) < 2 ^ 31 \<and>
   fst (Evict [1, 2, 3, 4] scenario_C) = Inr (Some 4) \<and>
   short_frame scenario_C 4 \<and> \<not> full_frame scenario_C 4"
proof -
  have sh: "short_frame scenario_C 4"
    by (simp add: short_frame_def scenario_C_def scenario_B_def scenario_A_def accessed_A_def
        model_defs)
  have fu: "full_frame scenario_C 1"
    by (simp add: full_frame_def scenario_C_def scenario_B_def scenario_A_def accessed_A_def
        model_defs)
  have k: "unat (lru_k scenario_C) < 2 ^ 31"
    by (simp add: scenario_C_def scenario_B_def scenario_A_def accessed_A_def model_defs)
  have ev: "fst (Evict [1, 2, 3, 4] scenario_C) = Inr (Some 4)"
    by (simp add: scenario_C_def scenario_B_def scenario_A_def accessed_A_def model_defs)
  from Evict_never_full_when_short [OF dom_scenario_C sh] ev
  have "short_frame scenario_C 4 \<and> \<not> full_frame scenario_C 4"
    by blast
  with dom_scenario_C sh fu k ev reachable_scenario_C show ?thesis
    by blast
qed







subsection \<open>The evictable count\<close>

text \<open>
  Claim C4. In every reachable state, \<^verbatim>\<open>Size()\<close> is the number of Frame Records whose evictable
  flag is true: the decrements of \<^verbatim>\<open>Evict\<close> and \<^verbatim>\<open>Remove\<close> and the updates of \<^verbatim>\<open>SetEvictable\<close> keep
  the cached counter equal to the count, and the 64-bit counter never wraps.
\<close>

theorem Size_counts_evictable:
  assumes "reachable s"
  shows "unat (Size s) = card {f. \<exists>n. node_store s f = Some n \<and> is_evictable n}"
  using reachable_size_inv [OF assms] by (simp add: size_inv_def Size_def evictable_ids_def)

text \<open>Scenario B: after one eviction, three evictable records are left.\<close>

theorem Size_counts_evictable_witness:
  "reachable scenario_B \<and> Size scenario_B = 3 \<and>
   card {f. \<exists>n. node_store scenario_B f = Some n \<and> is_evictable n} = 3"
proof -
  have "Size scenario_B = 3"
    by (simp add: Size_def scenario_B_def scenario_A_def accessed_A_def model_defs)
  with Size_counts_evictable [OF reachable_scenario_B] reachable_scenario_B show ?thesis
    by simp
qed

subsection \<open>The history window\<close>

text \<open>
  Claim C5. In every reachable state each frame's history has at most \<open>k\<close> entries. When
  \<^verbatim>\<open>RecordAccess\<close> is called for a frame whose history already has \<open>k\<close> entries, the call
  succeeds, the oldest entry is dropped and the new clock value, the old clock plus one, is
  appended.
\<close>

theorem history_window:
  assumes "reachable s"
  shows "length (history_at s f) \<le> unat (lru_k s) \<and>
         (CheckFrameId s f \<and> length (history_at s f) = unat (lru_k s) \<longrightarrow>
            fst (RecordAccess s f) = Inr () \<and>
            current_timestamp (snd (RecordAccess s f)) = current_timestamp s + 1 \<and>
            history_at (snd (RecordAccess s f)) f =
              tl (history_at s f) @ [current_timestamp s + 1])"
proof -
  note wf = reachable_wf_store [OF assms]
  have "length (history_at s f) \<le> unat (lru_k s)"
  proof (cases "node_store s f")
    case None
    then show ?thesis by (simp add: history_at_def)
  next
    case (Some n)
    with wf have "length (history n) \<le> unat (lru_k s)"
      unfolding wf_store_def by blast
    with Some show ?thesis by (simp add: history_at_def)
  qed
  moreover have "fst (RecordAccess s f) = Inr () \<and>
      current_timestamp (snd (RecordAccess s f)) = current_timestamp s + 1 \<and>
      history_at (snd (RecordAccess s f)) f = tl (history_at s f) @ [current_timestamp s + 1]"
    if c: "CheckFrameId s f" and l: "length (history_at s f) = unat (lru_k s)"
    using wf
  proof (cases rule: RecordAccess_cases [where f = f])
    case invalid
    with c show ?thesis by simp
  next
    case (recorded n')
    with l show ?thesis by (simp add: history_at_upd)
  qed
  ultimately show ?thesis by blast
qed

text \<open>After the five accesses of Scenario A, frame 1 has the full history \<open>[1, 3]\<close>; a
  further access at time 6 leaves \<open>[3, 6]\<close>.\<close>

theorem history_window_witness:
  "reachable accessed_A \<and> CheckFrameId accessed_A 1 \<and>
   history_at accessed_A 1 = [1, 3] \<and> unat (lru_k accessed_A) = 2 \<and>
   fst (RecordAccess accessed_A 1) = Inr () \<and>
   history_at (snd (RecordAccess accessed_A 1)) 1 = [3, 6]"
proof -
  have c: "CheckFrameId accessed_A 1"
    by (simp add: accessed_A_def model_defs)
  have h: "history_at accessed_A 1 = [1, 3]"
    by (simp add: history_at_def accessed_A_def model_defs)
  have k: "unat (lru_k accessed_A) = 2"
    by (simp add: accessed_A_def model_defs)
  have t: "current_timestamp accessed_A = 5"
    by (simp add: accessed_A_def model_defs)
  from history_window [OF reachable_accessed_A, of 1] c h k t
  have "fst (RecordAccess accessed_A 1) = Inr () \<and>
        history_at (snd (RecordAccess accessed_A 1)) 1 = [3, 6]"
    by simp
  with reachable_accessed_A c h k show ?thesis by blast
qed

subsection \<open>\<^verbatim>\<open>Remove\<close>\<close>

text \<open>
  Claim C6. \<^verbatim>\<open>Remove(id)\<close>, for every id, in or out of the range of valid ids: if the id is
  untracked or its record is empty, the call succeeds and the state is unchanged; if the
  record is non-empty and not evictable, the call fails with the frame-in-use condition and
  the state, \<^verbatim>\<open>Size()\<close> included, is unchanged; if the record is non-empty and evictable, its
  history is emptied, its flag reset, and the evictable count goes down by one (in a
  reachable state the count is positive there, so the counter does not wrap).
\<close>

theorem Remove_behaviour:
  "(history_at s f = [] \<longrightarrow> Remove s f = (Inr (), s)) \<and>
   (\<forall>n. node_store s f = Some n \<and> history n \<noteq> [] \<and> \<not> is_evictable n \<longrightarrow>
      Remove s f = (Inl FrameNonEvictable, s)) \<and>
   (\<forall>n. node_store s f = Some n \<and> history n \<noteq> [] \<and> is_evictable n \<longrightarrow>
      Remove s f =
        (Inr (), s\<lparr>node_store := (node_store s)(f \<mapsto> n\<lparr>history := [], is_evictable := False\<rparr>),
                   replacer_size := replacer_size s - 1\<rparr>) \<and>
      (reachable s \<longrightarrow> unat (Size (snd (Remove s f))) + 1 = unat (Size s)))"
proof (intro conjI allI impI)
  assume "history_at s f = []"
  then show "Remove s f = (Inr (), s)"
    by (auto simp: Remove_def history_at_def subscript_def IsEmpty_def split: option.splits)
next
  fix n assume "node_store s f = Some n \<and> history n \<noteq> [] \<and> \<not> is_evictable n"
  then show "Remove s f = (Inl FrameNonEvictable, s)"
    by (simp add: Remove_def subscript_def IsEmpty_def IsEvictable_def)
next
  fix n assume n: "node_store s f = Some n \<and> history n \<noteq> [] \<and> is_evictable n"
  then show eq: "Remove s f =
      (Inr (), s\<lparr>node_store := (node_store s)(f \<mapsto> n\<lparr>history := [], is_evictable := False\<rparr>),
                 replacer_size := replacer_size s - 1\<rparr>)"
    by (simp add: Remove_def subscript_def IsEmpty_def IsEvictable_def ClearNode_def)
  assume r: "reachable s"
  have "f \<in> evictable_ids s"
    using n by (simp add: evictable_ids_def)
  then have "0 < card (evictable_ids s)"
    using finite_evictable_ids [OF reachable_wf_store [OF r]] by (auto simp: card_gt_0_iff)
  then have "0 < unat (replacer_size s)"
    using reachable_size_inv [OF r] by (simp add: size_inv_def)
  then have "unat (replacer_size s - 1) = unat (replacer_size s) - 1"
    by (rule unat_decr)
  with \<open>0 < unat (replacer_size s)\<close> show "unat (Size (snd (Remove s f))) + 1 = unat (Size s)"
    unfolding eq by (simp add: Size_def)
qed

text \<open>
  In the state after the accesses of Scenario A, the id 12 is out of range and untracked,
  and frame 1 is
  tracked and not evictable (Scenario D); in Scenario A itself frame 2 is evictable.
\<close>

theorem Remove_behaviour_witness:
  "history_at accessed_A 12 = [] \<and> Remove accessed_A 12 = (Inr (), accessed_A) \<and>
   \<not> CheckFrameId accessed_A 12 \<and>
   history_at accessed_A 1 \<noteq> [] \<and> Remove accessed_A 1 = (Inl FrameNonEvictable, accessed_A) \<and>
   history_at scenario_A 2 \<noteq> [] \<and> reachable scenario_A \<and>
   fst (Remove scenario_A 2) = Inr () \<and>
   history_at (snd (Remove scenario_A 2)) 2 = [] \<and>
   Size scenario_A = 4 \<and> Size (snd (Remove scenario_A 2)) = 3"
proof -
  have a: "history_at accessed_A 12 = []"
    by (simp add: history_at_def accessed_A_def model_defs)
  have a': "\<not> CheckFrameId accessed_A 12"
    by (simp add: accessed_A_def model_defs)
  have b: "node_store accessed_A 1 =
      Some \<lparr>history = [1, 3], node_k = 2, node_fid = 1, is_evictable = False\<rparr>"
    by (simp add: accessed_A_def model_defs)
  have c: "node_store scenario_A 2 =
      Some \<lparr>history = [2], node_k = 2, node_fid = 2, is_evictable = True\<rparr>"
    by (simp add: scenario_A_def accessed_A_def model_defs)
  have sz: "Size scenario_A = 4"
    by (simp add: Size_def scenario_A_def accessed_A_def model_defs)
  from Remove_behaviour [of accessed_A 12] a
  have r1: "Remove accessed_A 12 = (Inr (), accessed_A)"
    by blast
  from Remove_behaviour [of accessed_A 1] b
  have r2: "Remove accessed_A 1 = (Inl FrameNonEvictable, accessed_A)"
    by simp
  from Remove_behaviour [of scenario_A 2] c reachable_scenario_A
  have r3: "Remove scenario_A 2 =
      (Inr (), scenario_A\<lparr>node_store := (node_store scenario_A)
          (2 \<mapsto> \<lparr>history = [], node_k = 2, node_fid = 2, is_evictable = False\<rparr>),
         replacer_size := replacer_size scenario_A - 1\<rparr>)"
    by simp
  have "Size (snd (Remove scenario_A 2)) = 3"
    using sz unfolding r3 by (simp add: Size_def)
  moreover have "history_at (snd (Remove scenario_A 2)) 2 = []"
    unfolding r3 by (simp add: history_at_def)
  moreover have "fst (Remove scenario_A 2) = Inr ()"
    unfolding r3 by simp
  ultimately show ?thesis
    using a a' b c r1 r2 sz reachable_scenario_A by (simp add: history_at_def)
qed

subsection \<open>\<^verbatim>\<open>SetEvictable\<close>\<close>

text \<open>
  Claim C8. \<^verbatim>\<open>SetEvictable\<close> does nothing to an unobserved frame and is idempotent. For an id
  in range whose record is absent or empty the call succeeds and the state is unchanged;
  for a non-empty record whose flag already equals the argument likewise; a second call
  with the same arguments never changes anything; and on a non-empty, non-evictable record
  of a reachable state two consecutive calls \<^verbatim>\<open>SetEvictable(id, true)\<close> raise \<^verbatim>\<open>Size()\<close> by
  exactly one.
\<close>

theorem SetEvictable_idempotent:
  "(CheckFrameId s f \<and> history_at s f = [] \<longrightarrow> SetEvictable s f b = (Inr (), s)) \<and>
   (\<forall>n. CheckFrameId s f \<and> node_store s f = Some n \<and> history n \<noteq> [] \<and> is_evictable n = b \<longrightarrow>
      SetEvictable s f b = (Inr (), s)) \<and>
   snd (SetEvictable (snd (SetEvictable s f b)) f b) = snd (SetEvictable s f b) \<and>
   (\<forall>n. reachable s \<and> CheckFrameId s f \<and> node_store s f = Some n \<and> history n \<noteq> [] \<and>
        \<not> is_evictable n \<longrightarrow>
      unat (Size (snd (SetEvictable s f True))) = unat (Size s) + 1 \<and>
      unat (Size (snd (SetEvictable (snd (SetEvictable s f True)) f True))) = unat (Size s) + 1)"
proof -
  have p1: "SetEvictable s f b = (Inr (), s)" if "CheckFrameId s f" "history_at s f = []"
    using that
    by (auto simp: SetEvictable_def history_at_def subscript_def IsEmpty_def split: option.splits)
  have p2: "SetEvictable s f b = (Inr (), s)"
    if "CheckFrameId s f" "node_store s f = Some n" "history n \<noteq> []" "is_evictable n = b" for n
    using that
    by (auto simp: SetEvictable_def subscript_def IsEmpty_def IsEvictable_def Let_def)
  have p3: "snd (SetEvictable (snd (SetEvictable s f c)) f c) = snd (SetEvictable s f c)" for c
  proof (cases rule: SetEvictable_cases [of s f c])
    case same
    then show ?thesis by simp
  next
    case (on n)
    show ?thesis
      unfolding on(6) snd_conv using on(1,4,5)
      by (simp add: SetEvictable_def subscript_def IsEmpty_def IsEvictable_def CheckFrameId_def)
  next
    case (off n)
    show ?thesis
      unfolding off(6) snd_conv using off(1,4,5)
      by (simp add: SetEvictable_def subscript_def IsEmpty_def IsEvictable_def CheckFrameId_def)
  qed
  have p4: "unat (Size (snd (SetEvictable s f True))) = unat (Size s) + 1"
    if r: "reachable s" and n: "CheckFrameId s f" "node_store s f = Some n" "history n \<noteq> []"
      "\<not> is_evictable n" for n
  proof -
    have eq: "SetEvictable s f True = (Inr (), s\<lparr>replacer_size := replacer_size s + 1,
          node_store := (node_store s)(f \<mapsto> n\<lparr>is_evictable := True\<rparr>)\<rparr>)"
      using n
      by (simp add: SetEvictable_def subscript_def IsEmpty_def IsEvictable_def Let_def
          SetEvictable_node_def)
    have r': "reachable (snd (SetEvictable s f True))"
      by (rule reachable.set_evictable [OF r])
    have "card (evictable_ids (snd (SetEvictable s f True))) = Suc (card (evictable_ids s))"
      unfolding eq snd_conv evictable_ids_upd
      using n finite_evictable_ids [OF reachable_wf_store [OF r]]
      by (simp add: evictable_ids_def)
    with reachable_size_inv [OF r] reachable_size_inv [OF r'] show ?thesis
      by (simp add: size_inv_def Size_def)
  qed
  show ?thesis
  proof (intro conjI allI impI)
    show "SetEvictable s f b = (Inr (), s)" if "CheckFrameId s f \<and> history_at s f = []"
      using that p1 by blast
    show "SetEvictable s f b = (Inr (), s)"
      if "CheckFrameId s f \<and> node_store s f = Some n \<and> history n \<noteq> [] \<and> is_evictable n = b"
      for n
      using that p2 by blast
    show "snd (SetEvictable (snd (SetEvictable s f b)) f b) = snd (SetEvictable s f b)"
      by (rule p3)
    show "unat (Size (snd (SetEvictable s f True))) = unat (Size s) + 1"
      if "reachable s \<and> CheckFrameId s f \<and> node_store s f = Some n \<and> history n \<noteq> [] \<and>
          \<not> is_evictable n" for n
      using that p4 by blast
    show "unat (Size (snd (SetEvictable (snd (SetEvictable s f True)) f True))) = unat (Size s) + 1"
      if "reachable s \<and> CheckFrameId s f \<and> node_store s f = Some n \<and> history n \<noteq> [] \<and>
          \<not> is_evictable n" for n
      unfolding p3 using that p4 by blast
  qed
qed

text \<open>
  After the accesses of Scenario A frame 5 was never observed and frame 1 is tracked but
  not evictable; in Scenario A frame 1 is already evictable.
\<close>

theorem SetEvictable_idempotent_witness:
  "CheckFrameId accessed_A 5 \<and> history_at accessed_A 5 = [] \<and>
   SetEvictable accessed_A 5 True = (Inr (), accessed_A) \<and>
   CheckFrameId scenario_A 1 \<and> history_at scenario_A 1 \<noteq> [] \<and>
   SetEvictable scenario_A 1 True = (Inr (), scenario_A) \<and>
   reachable accessed_A \<and> CheckFrameId accessed_A 1 \<and> history_at accessed_A 1 \<noteq> [] \<and>
   Size accessed_A = 0 \<and>
   Size (snd (SetEvictable accessed_A 1 True)) = 1 \<and>
   Size (snd (SetEvictable (snd (SetEvictable accessed_A 1 True)) 1 True)) = 1"
proof -
  have a: "CheckFrameId accessed_A 5" "history_at accessed_A 5 = []"
    by (simp_all add: history_at_def accessed_A_def model_defs)
  have b: "CheckFrameId scenario_A 1"
      "node_store scenario_A 1 =
         Some \<lparr>history = [1, 3], node_k = 2, node_fid = 1, is_evictable = True\<rparr>"
    by (simp_all add: scenario_A_def accessed_A_def model_defs)
  have c: "CheckFrameId accessed_A 1"
      "node_store accessed_A 1 =
         Some \<lparr>history = [1, 3], node_k = 2, node_fid = 1, is_evictable = False\<rparr>"
      "Size accessed_A = 0"
    by (simp_all add: Size_def accessed_A_def model_defs)
  from SetEvictable_idempotent [of accessed_A 5 True] a
  have r1: "SetEvictable accessed_A 5 True = (Inr (), accessed_A)"
    by blast
  from SetEvictable_idempotent [of scenario_A 1 True] b
  have r2: "SetEvictable scenario_A 1 True = (Inr (), scenario_A)"
    by simp
  from SetEvictable_idempotent [of accessed_A 1 True] c reachable_accessed_A
  have "unat (Size (snd (SetEvictable accessed_A 1 True))) = 1"
    "unat (Size (snd (SetEvictable (snd (SetEvictable accessed_A 1 True)) 1 True))) = 1"
    by simp_all
  then have r3: "Size (snd (SetEvictable accessed_A 1 True)) = 1"
    "Size (snd (SetEvictable (snd (SetEvictable accessed_A 1 True)) 1 True)) = 1"
    by (simp_all add: word_unat_eq_iff)
  from a b c r1 r2 r3 reachable_accessed_A show ?thesis
    by (simp add: history_at_def)
qed

subsection \<open>Clock values\<close>




subsection \<open>The latch\<close>

lemma under_latch_protected:
  "unlatched_access (snd (under_latch body l)) = unlatched_access l \<and>
   latch_held (snd (under_latch body l)) = False \<and>
   members (snd (under_latch body l)) = snd (body (members l)) \<and>
   fst (under_latch body l) = fst (body (members l))"
  by (simp add: under_latch_def Let_def touch_def scoped_lock_def unlock_def)

text \<open>The four operations that construct the \<^verbatim>\<open>scoped_lock\<close> touch the members only while
  they hold the latch, and leave it released.\<close>

lemma latched_operations_protected:
  "unlatched_access (snd (Evict_latched order l)) = unlatched_access l"
  "unlatched_access (snd (RecordAccess_latched l f)) = unlatched_access l"
  "unlatched_access (snd (SetEvictable_latched l f b)) = unlatched_access l"
  "unlatched_access (snd (Remove_latched l f)) = unlatched_access l"
  by (simp_all add: Evict_latched_def RecordAccess_latched_def SetEvictable_latched_def
      Remove_latched_def under_latch_protected)

text \<open>
  Claim C10. Every operation of the replacer, \<^verbatim>\<open>Size\<close> included, is to run under the one
  latch, so that the evictable count is never read outside it. \<^verbatim>\<open>Evict\<close>, \<^verbatim>\<open>RecordAccess\<close>,
  \<^verbatim>\<open>SetEvictable\<close> and \<^verbatim>\<open>Remove\<close> do. \<^verbatim>\<open>Size\<close> does not: called on a replacer whose latch the
  caller does not hold, it reads \<^verbatim>\<open>replacer_size_\<close> without acquiring the latch. Evaluated on
  the replacer of capacity 10 and window 2, right after its construction:
\<close>

theorem Size_reads_outside_latch:
  "Size_latched \<lparr>members = LRUKReplacer 10 2, latch_held = False, unlatched_access = False\<rparr> =
     (0, \<lparr>members = LRUKReplacer 10 2, latch_held = False, unlatched_access = True\<rparr>)"
  by (simp add: Size_latched_def touch_def Size_def LRUKReplacer_def)

end
